theory Spec2Isabelle
  imports Main
begin

section \<open>The data of \<open>mod.ts\<close>\<close>

text \<open>
  An \<open>Error\<close> object is either a plain error with its message or an
  \<open>AggregateError\<close> with its \<open>errors\<close> array; \<open>instanceof AggregateError\<close>
  is the test for the second constructor. Error objects are truthy. Where
  the code tests a value for truthiness before using it as an error
  (\<open>withError\<close>, \<open>#error\<close>), and where a value is thrown or is the reason of
  a rejection, the value is an \<open>err option\<close>: \<open>None\<close> is \<open>undefined\<close> and
  every other falsy value, \<open>Some e\<close> an error object.
\<close>

datatype err = Error string | AggregateError "err list"

text \<open>
  A promise is represented by the way it settles: it resolves to a value
  that is not a promise, or it rejects with a reason.
\<close>

datatype 'v promise = Resolves 'v | Rejects "err option"

text \<open>
  \<open>END\<close> and \<open>ERROR\<close> are the two exported symbols. A value that is not a
  promise is one of them or something else, \<open>Val x\<close>; the generator tells
  them apart with \<open>===\<close>. Nothing keeps a caller from passing the symbols
  to \<open>push\<close>, since \<open>T\<close> defaults to \<open>unknown\<close>. What \<open>push\<close> accepts and
  what the buffer holds, \<open>Enqueueable<T>\<close>, is such a value or a promise of
  one.
\<close>

datatype 'a "value" = Val 'a | END | ERROR

datatype 'a Enqueueable = Plain "'a value" | Future "'a value promise"

text \<open>
  \<open>EndOptions = { immediately?: boolean, withError?: Error }\<close>; a missing
  property is \<open>None\<close>. Calling \<open>close()\<close> without an argument passes \<open>{}\<close>.
\<close>

record EndOptions =
  immediately :: "bool option"
  withError :: "err option"

definition no_options :: EndOptions where
  "no_options = \<lparr>immediately = None, withError = None\<rparr>"

text \<open>
  The promise handed to the constructor is a \<open>Promise<unknown>\<close>: it
  fulfils (with a value that is ignored) or rejects with any reason, falsy
  ones included.
\<close>

datatype settlement = Fulfils | RejectsWith "err option"

text \<open>
  The async generator of \<open>[Symbol.asyncIterator]\<close> is in one of five places:
  about to run the loop head (\<open>Ready\<close>, also before its first \<open>next()\<close> and
  while parked at \<open>yield\<close>), suspended on the promise whose resolver sits in
  \<open>#resolve\<close> (\<open>Awaiting\<close>), resumable because the resolver was called with
  an entry (\<open>Resumed\<close>), returned (\<open>Finished\<close>), or terminated by a throw
  (\<open>Thrown\<close>, carrying what was thrown).
\<close>

datatype 'a iterator =
  Ready | Awaiting | Resumed "'a Enqueueable" | Finished | Thrown "err option"

text \<open>
  The queue object together with its single consumer. \<open>queue\<close>, \<open>resolve\<close>
  and \<open>error\<close> are the private fields \<open>#queue\<close>, \<open>#resolve\<close> (\<open>True\<close>
  when a resolver is stored, \<open>False\<close> for \<open>null\<close>) and \<open>#error\<close>.
  \<open>reassigned\<close> tells whether the properties \<open>push\<close> and \<open>close\<close> still
  hold the arrow functions of lines 35 and 43 (\<open>False\<close>) or have been
  overwritten with \<open>() => {}\<close> by line 46 (\<open>True\<close>). \<open>task\<close> is the
  promise given to the constructor as long as its handlers have not run.
  \<open>iter\<close> is the state of the generator and \<open>yielded\<close> the values it has
  produced so far.
\<close>

record 'a AsyncQueue =
  queue :: "'a Enqueueable list"
  resolve :: bool
  error :: "err option"
  reassigned :: bool
  task :: "settlement option"
  iter :: "'a iterator"
  yielded :: "'a value list"

section \<open>The operations\<close>

definition new_AsyncQueue :: "settlement option \<Rightarrow> 'a AsyncQueue" where
  "new_AsyncQueue streamPromise =
     \<lparr>queue = [], resolve = False, error = None, reassigned = False,
      task = streamPromise, iter = Ready, yielded = []\<rparr>"

definition handleError :: "err \<Rightarrow> 'a AsyncQueue \<Rightarrow> 'a AsyncQueue" where
  "handleError e s =
     (case error s of
        Some (AggregateError es) \<Rightarrow> s\<lparr>error := Some (AggregateError (es @ [e]))\<rparr>
      | Some (Error m) \<Rightarrow> s\<lparr>error := Some (AggregateError [Error m, e])\<rparr>
      | None \<Rightarrow> s\<lparr>error := Some e\<rparr>)"

text \<open>
  \<open>#enqueue\<close>: \<open>unshift\<close> or \<open>push\<close> the data, then, only if a resolver is
  stored, \<open>shift\<close> the head and call the resolver with it; in either case
  \<open>#resolve\<close> becomes \<open>null\<close>. Both callers pass a non-empty array, so the
  buffer is non-empty at the \<open>shift\<close>; on an empty buffer the resolver would
  receive \<open>undefined\<close>, and the model only clears the slot there.
\<close>

definition enqueue :: "bool \<Rightarrow> 'a Enqueueable list \<Rightarrow> 'a AsyncQueue \<Rightarrow> 'a AsyncQueue" where
  "enqueue immediate data s =
     (let q = (if immediate then data @ queue s else queue s @ data) in
      if resolve s then
        (case q of
           v # rest \<Rightarrow> s\<lparr>queue := rest, resolve := False, iter := Resumed v\<rparr>
         | [] \<Rightarrow> s\<lparr>queue := q, resolve := False\<rparr>)
      else s\<lparr>queue := q, resolve := False\<rparr>)"

definition no_arguments_error :: err where
  "no_arguments_error =
     Error ''AsyncQueueError: queue.push was called with no arguments''"

text \<open>
  The two arrow functions of lines 35 to 47. They test nothing about an
  earlier close and store their arguments as given. This is what runs when
  the property still holds the function, and also when a reference to the
  function that was taken earlier is called, as in
  \<open>stream.on("end", queue.close)\<close>.
\<close>

definition push :: "'a Enqueueable list \<Rightarrow> 'a AsyncQueue \<Rightarrow> 'a AsyncQueue" where
  "push data s =
     (if data \<noteq> [] then enqueue False data s
      else handleError no_arguments_error (enqueue False [Plain ERROR] s))"

definition close :: "EndOptions \<Rightarrow> 'a AsyncQueue \<Rightarrow> 'a AsyncQueue" where
  "close options s =
     (let immediate = (case immediately options of None \<Rightarrow> False | Some b \<Rightarrow> b);
          s1 = (case withError options of Some e \<Rightarrow> handleError e s | None \<Rightarrow> s);
          s2 = enqueue immediate
                 [case withError options of Some e \<Rightarrow> Plain ERROR | None \<Rightarrow> Plain END] s1
      in s2\<lparr>reassigned := True\<rparr>)"

text \<open>
  \<open>queue.push(...data)\<close> and \<open>queue.close(options)\<close>, with the property
  looked up on the instance at the time of the call: after line 46 it is the
  empty function.
\<close>

definition call_push :: "'a Enqueueable list \<Rightarrow> 'a AsyncQueue \<Rightarrow> 'a AsyncQueue" where
  "call_push data s = (if reassigned s then s else push data s)"

definition call_close :: "EndOptions \<Rightarrow> 'a AsyncQueue \<Rightarrow> 'a AsyncQueue" where
  "call_close options s = (if reassigned s then s else close options s)"

text \<open>
  The constructor attaches \<open>catch(err => this.close({ withError: err }))\<close> and
  then \<open>finally(() => this.close())\<close>. When the promise settles, a rejection
  runs the first handler and then the second; a fulfilment runs the second
  only. Both handlers look \<open>close\<close> up on the instance. Without a promise
  nothing is attached.
\<close>

definition settle :: "'a AsyncQueue \<Rightarrow> 'a AsyncQueue" where
  "settle s =
     (case task s of
        None \<Rightarrow> s
      | Some Fulfils \<Rightarrow> call_close no_options (s\<lparr>task := None\<rparr>)
      | Some (RejectsWith r) \<Rightarrow>
          call_close no_options
            (call_close \<lparr>immediately = None, withError = r\<rparr> (s\<lparr>task := None\<rparr>)))"

text \<open>
  Awaiting an entry: a value that is no promise is itself, a promise gives
  the value it resolves to or throws its reason.
\<close>

fun await :: "'a Enqueueable \<Rightarrow> err option + 'a value" where
  "await (Plain x) = Inr x"
| "await (Future (Resolves x)) = Inr x"
| "await (Future (Rejects r)) = Inl r"

text \<open>
  Lines 54 to 56 of the generator, applied to \<open>value\<close>. The two tests
  compare \<open>value\<close> itself with the symbols; \<open>yield\<close> awaits it, so a
  promise out of the buffer is never taken for a sentinel, whatever it
  resolves to, and a rejected one throws its reason out of the generator.
\<close>

definition deliver :: "'a Enqueueable \<Rightarrow> 'a AsyncQueue \<Rightarrow> 'a AsyncQueue" where
  "deliver v s =
     (if v = Plain ERROR then s\<lparr>iter := Thrown (error s)\<rparr>
      else if v = Plain END then s\<lparr>iter := Finished\<rparr>
      else
        (case await v of
           Inr x \<Rightarrow> s\<lparr>iter := Ready, yielded := yielded s @ [x]\<rparr>
         | Inl r \<Rightarrow> s\<lparr>iter := Thrown r\<rparr>))"

text \<open>
  Line 53 on the way back from the suspension: \<open>value\<close> is the result of
  awaiting the promise that the resolver was called with. An entry that is
  itself a promise is adopted, so \<open>value\<close> is what it resolves to, and the
  tests of lines 54 and 55 see that.
\<close>

definition resume :: "'a Enqueueable \<Rightarrow> 'a AsyncQueue \<Rightarrow> 'a AsyncQueue" where
  "resume v s =
     (case await v of
        Inr x \<Rightarrow> deliver (Plain x) s
      | Inl r \<Rightarrow> s\<lparr>iter := Thrown r\<rparr>)"

text \<open>
  One turn of the generator: from the loop head it shifts the buffer or
  stores a resolver and suspends; once resumed it continues with the entry
  it was given. Suspended or terminated, it does nothing.
\<close>

definition iterate :: "'a AsyncQueue \<Rightarrow> 'a AsyncQueue" where
  "iterate s =
     (case iter s of
        Ready \<Rightarrow>
          (case queue s of
             v # rest \<Rightarrow> deliver v (s\<lparr>queue := rest\<rparr>)
           | [] \<Rightarrow> s\<lparr>resolve := True, iter := Awaiting\<rparr>)
      | Resumed v \<Rightarrow> resume v s
      | _ \<Rightarrow> s)"

definition runnable :: "'a AsyncQueue \<Rightarrow> bool" where
  "runnable s = (case iter s of Ready \<Rightarrow> True | Resumed v \<Rightarrow> True | _ \<Rightarrow> False)"

text \<open>
  An upper bound on the turns the generator can still take without a producer
  call: it decreases with every turn of a generator that can run.
\<close>

definition remaining :: "'a AsyncQueue \<Rightarrow> nat" where
  "remaining s =
     2 * length (queue s) +
     (case iter s of Resumed v \<Rightarrow> 2 | Ready \<Rightarrow> 1 | _ \<Rightarrow> 0)"

text \<open>
  The consumer driving the generator with no producer call in between: the
  loop runs until it returns, throws, or suspends on an empty buffer.
\<close>

function consume :: "'a AsyncQueue \<Rightarrow> 'a AsyncQueue" where
  "consume s = (if runnable s then consume (iterate s) else s)"
  by pat_completeness auto
termination
  by (relation "measure remaining")
     (auto simp: runnable_def remaining_def iterate_def deliver_def resume_def
      split: iterator.splits list.splits sum.splits)

declare consume.simps [simp del]

text \<open>
  What can happen to a queue, one event at a time: a call of \<open>push\<close> or
  \<open>close\<close> through the property, a call of the original arrow function
  through a reference taken before any close (\<open>PushRef\<close>, \<open>CloseRef\<close>), a
  turn of the generator, and the settling of the constructor's promise.
\<close>

datatype 'a event =
  Push "'a Enqueueable list" | Close EndOptions
  | PushRef "'a Enqueueable list" | CloseRef EndOptions
  | Next | Settle

fun apply_event :: "'a event \<Rightarrow> 'a AsyncQueue \<Rightarrow> 'a AsyncQueue" where
  "apply_event (Push data) s = call_push data s"
| "apply_event (Close options) s = call_close options s"
| "apply_event (PushRef data) s = push data s"
| "apply_event (CloseRef options) s = close options s"
| "apply_event Next s = iterate s"
| "apply_event Settle s = settle s"

fun run :: "'a event list \<Rightarrow> 'a AsyncQueue \<Rightarrow> 'a AsyncQueue" where
  "run [] s = s"
| "run (e # es) s = run es (apply_event e s)"

text \<open>
  The states a new queue gets into by events that satisfy \<open>P\<close>.
\<close>

inductive reachable_by :: "('a event \<Rightarrow> bool) \<Rightarrow> 'a AsyncQueue \<Rightarrow> bool"
  for P :: "'a event \<Rightarrow> bool" where
  fresh: "reachable_by P (new_AsyncQueue streamPromise)"
| after: "reachable_by P s \<Longrightarrow> P e \<Longrightarrow> reachable_by P (apply_event e s)"

section \<open>Notions for stating and proving the properties\<close>

text \<open>
  The states a new queue gets into by any events at all.
\<close>

definition reachable :: "'a AsyncQueue \<Rightarrow> bool" where
  "reachable s = reachable_by (\<lambda>e. True) s"

text \<open>
  Recording a sequence of failures, one \<open>#handleError\<close> call after the other.
\<close>

fun record_all :: "err list \<Rightarrow> 'a AsyncQueue \<Rightarrow> 'a AsyncQueue" where
  "record_all [] s = s"
| "record_all (e # es) s = record_all es (handleError e s)"

text \<open>
  The events of a producer that only pushes while the consumer takes its
  turns: every \<open>push\<close> has at least one argument, and nothing closes the
  queue. \<open>pushed\<close> collects the arguments of the pushes in call order.
\<close>

fun producing :: "'a event \<Rightarrow> bool" where
  "producing (Push data) = (data \<noteq> [])"
| "producing (PushRef data) = (data \<noteq> [])"
| "producing Next = True"
| "producing (Close options) = False"
| "producing (CloseRef options) = False"
| "producing Settle = False"

fun pushed :: "'a event list \<Rightarrow> 'a Enqueueable list" where
  "pushed [] = []"
| "pushed (Push data # es) = data @ pushed es"
| "pushed (PushRef data # es) = data @ pushed es"
| "pushed (e # es) = pushed es"

text \<open>
  The calls of \<open>push\<close> and \<open>close\<close> that go through the property.
\<close>

fun by_property :: "'a event \<Rightarrow> bool" where
  "by_property (Push data) = True"
| "by_property (Close options) = True"
| "by_property e = False"

text \<open>
  The events in which no argument of a \<open>push\<close> is the symbol \<open>ERROR\<close> or
  a promise that resolves to it.
\<close>

fun clean :: "'a event \<Rightarrow> bool" where
  "clean (Push data) = list_all (\<lambda>v. await v \<noteq> Inr ERROR) data"
| "clean (PushRef data) = list_all (\<lambda>v. await v \<noteq> Inr ERROR) data"
| "clean e = True"

text \<open>
  What the consumer has been handed but not yet looked at, followed by the
  buffer: the entries still ahead of the generator, in the order it will meet
  them.
\<close>

definition pending :: "'a AsyncQueue \<Rightarrow> 'a Enqueueable list" where
  "pending s = (case iter s of Resumed v \<Rightarrow> [v] | _ \<Rightarrow> []) @ queue s"

text \<open>
  The resolver is stored exactly while the generator is suspended, and then
  the buffer is empty.
\<close>

definition steady :: "'a AsyncQueue \<Rightarrow> bool" where
  "steady s = (resolve s = (iter s = Awaiting) \<and> (resolve s \<longrightarrow> queue s = []))"

text \<open>
  A queue whose \<open>push\<close> and \<open>close\<close> are still the original functions,
  without failure, whose consumer is still going, and in which the values
  yielded so far followed by the entries ahead are the entries \<open>ds\<close>, each
  of which is, or resolves to, a value other than the two symbols.
\<close>

definition flowing :: "'a AsyncQueue \<Rightarrow> 'a Enqueueable list \<Rightarrow> bool" where
  "flowing s ds =
     (steady s \<and> \<not> reassigned s \<and> error s = None \<and>
      (iter s = Ready \<or> iter s = Awaiting \<or> (\<exists>v. iter s = Resumed v)) \<and>
      (\<forall>p\<in>set (pending s). \<exists>x. await p = Inr (Val x)) \<and>
      map Inr (yielded s) @ map await (pending s) = map await ds)"

text \<open>
  An invariant of all reachable states: once line 46 has run, the consumer
  has stopped or still has a sentinel ahead.
\<close>

definition sound :: "'a AsyncQueue \<Rightarrow> bool" where
  "sound s =
     (steady s \<and>
      (reassigned s \<longrightarrow>
         iter s = Finished \<or> (\<exists>r. iter s = Thrown r) \<or>
         Plain END \<in> set (pending s) \<or> Plain ERROR \<in> set (pending s)))"

text \<open>
  An invariant of the states reached by \<open>clean\<close> events: an \<open>ERROR\<close> ahead
  of the consumer comes with a recorded failure.
\<close>

definition backed :: "'a AsyncQueue \<Rightarrow> bool" where
  "backed s =
     (steady s \<and> ((\<exists>v\<in>set (pending s). await v = Inr ERROR) \<longrightarrow> error s \<noteq> None))"

section \<open>Basic facts\<close>

lemma queue_handleError [simp]: "queue (handleError e s) = queue s"
  and resolve_handleError [simp]: "resolve (handleError e s) = resolve s"
  and reassigned_handleError [simp]: "reassigned (handleError e s) = reassigned s"
  and iter_handleError [simp]: "iter (handleError e s) = iter s"
  and yielded_handleError [simp]: "yielded (handleError e s) = yielded s"
  and task_handleError [simp]: "task (handleError e s) = task s"
  by (simp_all add: handleError_def split: option.splits err.splits)

lemma error_handleError:
  "error (handleError e s) =
     Some (case error s of
             None \<Rightarrow> e
           | Some (Error m) \<Rightarrow> AggregateError [Error m, e]
           | Some (AggregateError es) \<Rightarrow> AggregateError (es @ [e]))"
  by (simp add: handleError_def split: option.splits err.splits)

lemma error_handleError_some [simp]: "\<exists>y. error (handleError e s) = Some y"
  by (simp add: error_handleError)

lemma error_enqueue [simp]: "error (enqueue b d s) = error s"
  and reassigned_enqueue [simp]: "reassigned (enqueue b d s) = reassigned s"
  and resolve_enqueue [simp]: "\<not> resolve (enqueue b d s)"
  and yielded_enqueue [simp]: "yielded (enqueue b d s) = yielded s"
  and task_enqueue [simp]: "task (enqueue b d s) = task s"
  by (simp_all add: enqueue_def Let_def split: list.splits)

lemma queue_enqueue_idle:
  "\<not> resolve s \<Longrightarrow>
   queue (enqueue b d s) = (if b then d @ queue s else queue s @ d)"
  by (simp add: enqueue_def)

lemma error_deliver [simp]: "error (deliver v s) = error s"
  and reassigned_deliver [simp]: "reassigned (deliver v s) = reassigned s"
  and task_deliver [simp]: "task (deliver v s) = task s"
  and queue_deliver [simp]: "queue (deliver v s) = queue s"
  and resolve_deliver [simp]: "resolve (deliver v s) = resolve s"
  by (simp_all add: deliver_def split: sum.splits)

lemma error_resume [simp]: "error (resume v s) = error s"
  and reassigned_resume [simp]: "reassigned (resume v s) = reassigned s"
  and task_resume [simp]: "task (resume v s) = task s"
  and queue_resume [simp]: "queue (resume v s) = queue s"
  and resolve_resume [simp]: "resolve (resume v s) = resolve s"
  by (simp_all add: resume_def split: sum.splits)

lemma error_iterate [simp]: "error (iterate s) = error s"
  and reassigned_iterate [simp]: "reassigned (iterate s) = reassigned s"
  and task_iterate [simp]: "task (iterate s) = task s"
  by (simp_all add: iterate_def split: iterator.splits list.splits)

lemma task_push [simp]: "task (push d s) = task s"
  and task_call_push [simp]: "task (call_push d s) = task s"
  by (simp_all add: push_def call_push_def)

lemma reassigned_push [simp]: "reassigned (push d s) = reassigned s"
  and reassigned_call_push [simp]: "reassigned (call_push d s) = reassigned s"
  by (simp_all add: push_def call_push_def)

lemma reassigned_close [simp]: "reassigned (close options s)"
  and reassigned_call_close [simp]: "reassigned (call_close options s)"
  by (simp_all add: close_def call_close_def Let_def)

lemma call_reassigned:
  "reassigned s \<Longrightarrow> call_close options s = s"
  "reassigned s \<Longrightarrow> call_push data s = s"
  by (simp_all add: call_close_def call_push_def)

lemma call_original:
  "\<not> reassigned s \<Longrightarrow> call_close options s = close options s"
  "\<not> reassigned s \<Longrightarrow> call_push data s = push data s"
  by (simp_all add: call_close_def call_push_def)

lemma close_tail:
  "immediately options \<noteq> Some True \<Longrightarrow>
   close options s =
     (enqueue False
        [case withError options of Some e \<Rightarrow> Plain ERROR | None \<Rightarrow> Plain END]
        (case withError options of Some e \<Rightarrow> handleError e s | None \<Rightarrow> s))
     \<lparr>reassigned := True\<rparr>"
  by (cases "immediately options") (auto simp: close_def Let_def)

lemma pending_reassigned [simp]: "pending (s\<lparr>reassigned := b\<rparr>) = pending s"
  and pending_task [simp]: "pending (s\<lparr>task := t\<rparr>) = pending s"
  and pending_handleError [simp]: "pending (handleError e s) = pending s"
  and runnable_reassigned [simp]: "runnable (s\<lparr>reassigned := b\<rparr>) = runnable s"
  and steady_handleError [simp]: "steady (handleError e s) = steady s"
  and steady_task [simp]: "steady (s\<lparr>task := t\<rparr>) = steady s"
  and steady_reassigned [simp]: "steady (s\<lparr>reassigned := b\<rparr>) = steady s"
  by (simp_all add: pending_def runnable_def steady_def)

lemma flowing_task [simp]: "flowing (s\<lparr>task := t\<rparr>) ds = flowing s ds"
  by (simp add: flowing_def)

lemma settle_rejected:
  "task s = Some (RejectsWith r) \<Longrightarrow>
   settle s = call_close \<lparr>immediately = None, withError = r\<rparr> (s\<lparr>task := None\<rparr>)"
  by (simp add: settle_def call_reassigned)

lemma settle_fulfilled:
  "task s = Some Fulfils \<Longrightarrow> settle s = call_close no_options (s\<lparr>task := None\<rparr>)"
  by (simp add: settle_def)

lemma settle_reassigned: "reassigned s \<Longrightarrow> settle s = s\<lparr>task := None\<rparr>"
  by (auto simp: settle_def call_reassigned split: option.splits settlement.splits)

section \<open>The consumption loop\<close>

lemma iterate_value:
  "runnable s \<Longrightarrow> pending s = p # xs \<Longrightarrow> await p = Inr (Val w) \<Longrightarrow>
   iterate s = s\<lparr>queue := xs, iter := Ready, yielded := yielded s @ [Val w]\<rparr>"
  by (cases p)
     (auto simp: runnable_def pending_def iterate_def deliver_def resume_def
      split: iterator.splits)

lemma iterate_sentinel:
  "runnable s \<Longrightarrow> pending s = Plain m # xs \<Longrightarrow> m = END \<or> m = ERROR \<Longrightarrow>
   iterate s =
     s\<lparr>queue := xs, iter := (if m = END then Finished else Thrown (error s))\<rparr>"
  by (auto simp: runnable_def pending_def iterate_def deliver_def resume_def
      split: iterator.splits)

lemma consume_stop: "\<not> runnable s \<Longrightarrow> consume s = s"
  by (simp add: consume.simps)

lemma consume_go: "runnable s \<Longrightarrow> consume s = consume (iterate s)"
  by (simp add: consume.simps [of s])

text \<open>
  Started where only entries that are, or resolve to, values lie before a
  sentinel, the loop yields those values in order and stops at the sentinel:
  it returns at \<open>END\<close> and throws \<open>#error\<close> at \<open>ERROR\<close>. Whatever follows
  the sentinel stays in the buffer.
\<close>

lemma consume_pending:
  "runnable s \<Longrightarrow> pending s = ps @ Plain m # rest \<Longrightarrow>
   map await ps = map (\<lambda>w. Inr (Val w)) ws \<Longrightarrow> m = END \<or> m = ERROR \<Longrightarrow>
   iter (consume s) = (if m = END then Finished else Thrown (error s)) \<and>
   yielded (consume s) = yielded s @ map Val ws \<and>
   queue (consume s) = rest \<and> error (consume s) = error s"
proof (induction ps arbitrary: s ws)
  case Nil
  let ?t = "s\<lparr>queue := rest, iter := (if m = END then Finished else Thrown (error s))\<rparr>"
  from Nil have "iterate s = ?t"
    by (simp add: iterate_sentinel)
  moreover have "\<not> runnable ?t"
    by (simp add: runnable_def)
  ultimately have "consume s = ?t"
    using Nil.prems(1) by (simp add: consume_go consume_stop)
  then show ?case using Nil.prems(3) by simp
next
  case (Cons p ps)
  from Cons.prems(3) obtain w ws' where ws: "ws = w # ws'" and p: "await p = Inr (Val w)"
    and rest: "map await ps = map (\<lambda>w. Inr (Val w)) ws'"
    by (cases ws) auto
  let ?t = "s\<lparr>queue := ps @ Plain m # rest, iter := Ready, yielded := yielded s @ [Val w]\<rparr>"
  have step: "iterate s = ?t"
    using Cons.prems(1,2) p by (simp add: iterate_value)
  have "runnable ?t" and "pending ?t = ps @ Plain m # rest"
    by (simp_all add: runnable_def pending_def)
  from Cons.IH [OF this rest Cons.prems(4)] step Cons.prems(1) show ?case
    by (simp add: consume_go ws)
qed

lemma steady_iterate: "steady s \<Longrightarrow> steady (iterate s)"
  by (auto simp: steady_def iterate_def deliver_def resume_def
      split: iterator.splits list.splits sum.splits)

lemma pending_iterate:
  "runnable s \<Longrightarrow> pending s = x # xs \<Longrightarrow>
   pending (iterate s) = xs \<and>
   (x = Plain END \<or> x = Plain ERROR \<longrightarrow> iter (iterate s) = Finished \<or> (\<exists>r. iter (iterate s) = Thrown r))"
  by (auto simp: runnable_def pending_def iterate_def deliver_def resume_def
      split: iterator.splits sum.splits)

lemma iterate_stuck:
  "\<not> runnable s \<Longrightarrow> iterate s = s"
  by (auto simp: runnable_def iterate_def split: iterator.splits)

lemma iterate_empty:
  "runnable s \<Longrightarrow> pending s = [] \<Longrightarrow>
   iterate s = s\<lparr>resolve := True, iter := Awaiting\<rparr> \<and> iter s = Ready \<and> queue s = []"
  by (auto simp: runnable_def pending_def iterate_def split: iterator.splits)

lemma stopped_iterate:
  "iter s = Finished \<or> (\<exists>r. iter s = Thrown r) \<Longrightarrow> iterate s = s"
  by (auto simp: iterate_def)

section \<open>Producer and consumer interleaved\<close>

lemma enqueue_tail:
  assumes "steady s" "data \<noteq> []"
  shows "pending (enqueue False data s) = pending s @ data"
    and "steady (enqueue False data s)"
    and "iter (enqueue False data s) \<noteq> Awaiting"
    and "iter s = Ready \<or> iter s = Awaiting \<or> (\<exists>v. iter s = Resumed v) \<Longrightarrow>
         runnable (enqueue False data s)"
  using assms
  by (cases data; auto simp: steady_def pending_def enqueue_def runnable_def
      split: iterator.splits)+

lemma flowing_fresh: "flowing (new_AsyncQueue t) []"
  by (simp add: flowing_def steady_def pending_def new_AsyncQueue_def)

lemma flowing_push:
  assumes "flowing s ds" "d \<noteq> []" "\<forall>p\<in>set d. \<exists>x. await p = Inr (Val x)"
  shows "flowing (push d s) (ds @ d)"
proof -
  from assms(1) have st: "steady s" and op: "\<not> reassigned s" and er: "error s = None"
    and it: "iter s = Ready \<or> iter s = Awaiting \<or> (\<exists>v. iter s = Resumed v)"
    and ps: "\<forall>p\<in>set (pending s). \<exists>x. await p = Inr (Val x)"
      "map Inr (yielded s) @ map await (pending s) = map await ds"
    by (auto simp: flowing_def)
  have p: "push d s = enqueue False d s"
    using assms(2) by (simp add: push_def)
  have run: "runnable (push d s)"
    unfolding p by (rule enqueue_tail(4) [OF st assms(2) it])
  have a: "pending (push d s) = pending s @ d"
    by (simp add: p enqueue_tail(1) [OF st assms(2)])
  have b: "\<forall>p\<in>set (pending (push d s)). \<exists>x. await p = Inr (Val x)"
    using ps(1) assms(3) by (auto simp: a)
  have c: "map Inr (yielded (push d s)) @ map await (pending (push d s)) = map await (ds @ d)"
    using ps(2) by (simp add: a) (simp add: p)
  have e: "steady (push d s)"
    unfolding p by (rule enqueue_tail(2) [OF st assms(2)])
  have f: "iter (push d s) = Ready \<or> iter (push d s) = Awaiting \<or>
      (\<exists>v. iter (push d s) = Resumed v)"
    using run by (auto simp: runnable_def split: iterator.splits)
  have g: "\<not> reassigned (push d s)" "error (push d s) = None"
    using op er by (simp_all add: p)
  show ?thesis unfolding flowing_def using e g f b c by blast
qed

lemma flowing_iterate:
  assumes "flowing s ds"
  shows "flowing (iterate s) ds"
proof -
  from assms have st: "steady s" and op: "\<not> reassigned s" and er: "error s = None"
    and it: "iter s = Ready \<or> iter s = Awaiting \<or> (\<exists>v. iter s = Resumed v)"
    and ps: "\<forall>p\<in>set (pending s). \<exists>x. await p = Inr (Val x)"
      "map Inr (yielded s) @ map await (pending s) = map await ds"
    by (auto simp: flowing_def)
  show ?thesis
  proof (cases "runnable s")
    case False
    with it have "iter s = Awaiting" by (auto simp: runnable_def)
    then have "iterate s = s" by (simp add: iterate_def)
    with assms show ?thesis by simp
  next
    case True
    show ?thesis
    proof (cases "pending s")
      case Nil
      with True have "iter s = Ready" "queue s = []"
        by (auto simp: pending_def runnable_def split: iterator.splits)
      then have "iterate s = s\<lparr>resolve := True, iter := Awaiting\<rparr>"
        by (simp add: iterate_def)
      then show ?thesis
        using op er ps(2) Nil \<open>queue s = []\<close>
        by (simp add: flowing_def steady_def pending_def)
    next
      case (Cons p ps')
      with ps(1) obtain x where x: "await p = Inr (Val x)" by auto
      from True st have idle: "\<not> resolve s"
        by (auto simp: steady_def runnable_def)
      have step: "iterate s =
          s\<lparr>queue := ps', iter := Ready, yielded := yielded s @ [Val x]\<rparr>"
        by (rule iterate_value [OF True Cons x])
      have a: "pending (iterate s) = ps'"
        by (simp add: step pending_def)
      have b: "\<forall>p\<in>set (pending (iterate s)). \<exists>x. await p = Inr (Val x)"
        using ps(1) Cons by (simp add: a)
      have c: "map Inr (yielded (iterate s)) @ map await (pending (iterate s)) = map await ds"
        using ps(2) Cons x by (simp add: a) (simp add: step)
      have e: "steady (iterate s)" using idle by (simp add: step steady_def)
      have f: "iter (iterate s) = Ready \<or> iter (iterate s) = Awaiting \<or>
          (\<exists>v. iter (iterate s) = Resumed v)"
        by (simp add: step)
      have g: "\<not> reassigned (iterate s)" "error (iterate s) = None"
        using op er by simp_all
      show ?thesis unfolding flowing_def using e g f b c by blast
    qed
  qed
qed

lemma flowing_run:
  "flowing s ds \<Longrightarrow> list_all producing evs \<Longrightarrow>
   \<forall>p\<in>set (pushed evs). \<exists>x. await p = Inr (Val x) \<Longrightarrow>
   flowing (run evs s) (ds @ pushed evs) \<and> task (run evs s) = task s"
proof (induction evs arbitrary: s ds)
  case Nil
  then show ?case by simp
next
  case (Cons e evs)
  have op: "\<not> reassigned s" using Cons.prems(1) by (simp add: flowing_def)
  show ?case
  proof (cases e)
    case (Push d)
    with Cons.prems have "flowing (push d s) (ds @ d)"
      by (intro flowing_push) auto
    from Cons.IH [OF this] Cons.prems op show ?thesis
      by (simp add: Push call_original)
  next
    case (PushRef d)
    with Cons.prems have "flowing (push d s) (ds @ d)"
      by (intro flowing_push) auto
    from Cons.IH [OF this] Cons.prems show ?thesis by (simp add: PushRef)
  next
    case Next
    from Cons.IH [OF flowing_iterate [OF Cons.prems(1)]] Cons.prems
    show ?thesis by (simp add: Next)
  qed (use Cons.prems in simp_all)
qed

lemma flowing_trace:
  assumes "list_all producing evs" "map await (pushed evs) = map (\<lambda>v. Inr (Val v)) vs"
  shows "flowing (run evs (new_AsyncQueue t)) (pushed evs)"
    and "task (run evs (new_AsyncQueue t)) = t"
proof -
  have "\<forall>p\<in>set (pushed evs). \<exists>x. await p = Inr (Val x)"
  proof
    fix p assume "p \<in> set (pushed evs)"
    then have "await p \<in> set (map (\<lambda>v. Inr (Val v)) vs)"
      unfolding assms(2) [symmetric] by simp
    then show "\<exists>x. await p = Inr (Val x)" by auto
  qed
  from flowing_run [OF flowing_fresh assms(1) this, of t]
  show "flowing (run evs (new_AsyncQueue t)) (pushed evs)"
    and "task (run evs (new_AsyncQueue t)) = t"
    by (simp_all add: new_AsyncQueue_def)
qed

lemma awaited_values:
  "\<forall>p\<in>set ps. \<exists>x. await p = Inr (Val x) \<Longrightarrow>
   \<exists>ws. map await ps = map (\<lambda>w. Inr (Val w)) ws"
proof (induction ps)
  case Nil
  then show ?case by simp
next
  case (Cons p ps)
  then obtain x ws where "await p = Inr (Val x)"
    and "map await ps = map (\<lambda>w. Inr (Val w)) ws" by auto
  then have "map await (p # ps) = map (\<lambda>w. Inr (Val w)) (x # ws)" by simp
  then show ?case by blast
qed

lemma flowing_close:
  assumes "flowing s ds" "map await ds = map (\<lambda>v. Inr (Val v)) vs"
    "immediately options \<noteq> Some True"
  shows "iter (consume (close options s)) =
           (case withError options of Some e \<Rightarrow> Thrown (Some e) | None \<Rightarrow> Finished) \<and>
         yielded (consume (close options s)) = map Val vs \<and>
         queue (consume (close options s)) = []"
proof -
  from assms(1) have st: "steady s" and er: "error s = None"
    and it: "iter s = Ready \<or> iter s = Awaiting \<or> (\<exists>v. iter s = Resumed v)"
    and ps: "\<forall>p\<in>set (pending s). \<exists>x. await p = Inr (Val x)"
      "map Inr (yielded s) @ map await (pending s) = map await ds"
    by (auto simp: flowing_def)
  let ?m = "case withError options of Some e \<Rightarrow> ERROR | None \<Rightarrow> END"
  let ?s1 = "case withError options of Some e \<Rightarrow> handleError e s | None \<Rightarrow> s"
  let ?c = "close options s"
  have c: "?c = (enqueue False [Plain ?m] ?s1)\<lparr>reassigned := True\<rparr>"
    unfolding close_tail [OF assms(3)] by (simp split: option.splits)
  have st1: "steady ?s1" and it1: "iter ?s1 = iter s" and p1: "pending ?s1 = pending s"
    and y1: "yielded ?s1 = yielded s"
    using st by (simp_all split: option.splits)
  have e1: "error ?s1 = withError options"
    using er by (simp add: error_handleError split: option.splits)
  have run: "runnable ?c"
    using enqueue_tail(4) [OF st1, of "[Plain ?m]"] it by (simp add: c it1)
  have pend: "pending ?c = pending s @ Plain ?m # []"
    using enqueue_tail(1) [OF st1, of "[Plain ?m]"] by (simp add: c p1)
  from awaited_values [OF ps(1)] obtain ws
    where ws: "map await (pending s) = map (\<lambda>w. Inr (Val w)) ws" by blast
  have m: "?m = END \<or> ?m = ERROR" by (simp split: option.splits)
  note fin = consume_pending [OF run pend ws m]
  have "map (\<lambda>w. Inr w :: err option + 'a value) (yielded s @ map Val ws)
      = map (\<lambda>w. Inr w) (map Val vs)"
    using ps(2) ws assms(2) by (simp add: comp_def)
  then have "yielded s @ map Val ws = map Val vs"
    by (simp only: inj_map_eq_map [OF inj_Inr])
  moreover have "yielded ?c = yielded s" "error ?c = withError options"
    by (simp_all add: c y1 e1)
  ultimately show ?thesis using fin by (auto split: option.splits)
qed

lemma pushes_idle:
  "\<not> reassigned s \<Longrightarrow> \<not> resolve s \<Longrightarrow> [] \<notin> set ds \<Longrightarrow>
   queue (run (map Push ds) s) = queue s @ concat ds \<and>
   \<not> reassigned (run (map Push ds) s) \<and> \<not> resolve (run (map Push ds) s) \<and>
   iter (run (map Push ds) s) = iter s \<and>
   yielded (run (map Push ds) s) = yielded s"
proof (induction ds arbitrary: s)
  case Nil
  then show ?case by simp
next
  case (Cons d ds)
  from Cons.prems have p: "call_push d s = s\<lparr>queue := queue s @ d, resolve := False\<rparr>"
    by (auto simp: call_push_def push_def enqueue_def)
  have "\<not> reassigned (call_push d s)" "\<not> resolve (call_push d s)" "[] \<notin> set ds"
    using Cons.prems by (simp_all add: p)
  from Cons.IH [OF this] show ?case by (simp add: p)
qed

lemma enqueue_any:
  assumes "steady s" "data \<noteq> []"
  shows "set (pending (enqueue b data s)) = set (pending s) \<union> set data"
    and "steady (enqueue b data s)"
    and "(iter (enqueue b data s) = Thrown x) = (iter s = Thrown x)"
    and "(iter (enqueue b data s) = Finished) = (iter s = Finished)"
  using assms
  by (cases data; cases "queue s"; auto simp: steady_def pending_def enqueue_def
      split: iterator.splits)+

lemma run_by_property:
  "reassigned s \<Longrightarrow> list_all by_property evs \<Longrightarrow> run evs s = s"
proof (induction evs)
  case Nil
  show ?case by simp
next
  case (Cons e evs)
  then show ?case by (cases e) (simp_all add: call_reassigned)
qed

section \<open>Invariants of reachable states\<close>

lemma sound_fresh: "sound (new_AsyncQueue t)"
  by (simp add: sound_def steady_def pending_def new_AsyncQueue_def)

lemma sound_push: "sound s \<Longrightarrow> sound (push d s)"
  unfolding sound_def push_def
  by (cases "d = []") (auto simp: enqueue_any)

lemma sound_close: "sound s \<Longrightarrow> sound (close options s)"
  unfolding sound_def close_def Let_def
  by (cases "withError options") (auto simp: enqueue_any)

lemma sound_call: "sound s \<Longrightarrow> sound (call_push d s)" "sound s \<Longrightarrow> sound (call_close options s)"
  by (simp_all add: call_push_def call_close_def sound_push sound_close)

lemma sound_task [simp]: "sound (s\<lparr>task := t\<rparr>) = sound s"
  by (simp add: sound_def)

lemma sound_settle: "sound s \<Longrightarrow> sound (settle s)"
  by (auto simp: settle_def sound_call split: option.splits settlement.splits)

lemma sound_iterate:
  assumes "sound s"
  shows "sound (iterate s)"
proof (cases "runnable s")
  case False
  with assms show ?thesis by (simp add: iterate_stuck)
next
  case True
  show ?thesis
  proof (cases "pending s")
    case Nil
    from iterate_empty [OF True Nil] assms Nil show ?thesis
      by (auto simp: sound_def steady_def pending_def)
  next
    case (Cons x xs)
    from pending_iterate [OF True Cons] assms Cons steady_iterate [of s] True
    show ?thesis
      unfolding sound_def by (auto simp: runnable_def)
  qed
qed

lemma reachable_sound: "reachable_by P s \<Longrightarrow> sound s"
proof (induction rule: reachable_by.induct)
  case (fresh streamPromise)
  show ?case by (rule sound_fresh)
next
  case (after s e)
  then show ?case
    by (cases e) (simp_all add: sound_push sound_close sound_call sound_iterate sound_settle)
qed

lemma backed_fresh: "backed (new_AsyncQueue t)"
  by (simp add: backed_def steady_def pending_def new_AsyncQueue_def)

lemma backed_push:
  "backed s \<Longrightarrow> list_all (\<lambda>v. await v \<noteq> Inr ERROR) d \<Longrightarrow> backed (push d s)"
  unfolding backed_def push_def
  by (cases "d = []") (auto simp: enqueue_any list_all_iff)

lemma backed_close: "backed s \<Longrightarrow> backed (close options s)"
  unfolding backed_def close_def Let_def
  by (cases "withError options") (auto simp: enqueue_any)

lemma backed_task [simp]: "backed (s\<lparr>task := t\<rparr>) = backed s"
  by (simp add: backed_def)

lemma backed_settle: "backed s \<Longrightarrow> backed (settle s)"
  by (auto simp: settle_def call_close_def backed_close split: option.splits settlement.splits)

lemma backed_iterate:
  assumes "backed s"
  shows "backed (iterate s)"
proof (cases "runnable s")
  case False
  with assms show ?thesis by (simp add: iterate_stuck)
next
  case True
  show ?thesis
  proof (cases "pending s")
    case Nil
    from iterate_empty [OF True Nil] assms Nil show ?thesis
      by (auto simp: backed_def steady_def pending_def)
  next
    case (Cons x xs)
    from pending_iterate [OF True Cons] assms Cons steady_iterate [of s]
    show ?thesis
      unfolding backed_def by auto
  qed
qed

lemma reachable_backed: "reachable_by clean s \<Longrightarrow> backed s"
proof (induction rule: reachable_by.induct)
  case (fresh streamPromise)
  show ?case by (rule backed_fresh)
next
  case (after s e)
  then show ?case
    by (cases e)
       (simp_all add: backed_push backed_close backed_iterate backed_settle
         call_push_def call_close_def)
qed

section \<open>Failure accumulation\<close>

lemma record_all_aggregate:
  "error s = Some (AggregateError ms) \<Longrightarrow>
   error (record_all es s) = Some (AggregateError (ms @ es))"
  by (induction es arbitrary: s ms) (simp_all add: handleError_def)

section \<open>Delivery in order\<close>

text \<open>
  C1. The producer calls \<open>push\<close>, each time with at least one argument and
  with the values \<open>vs\<close> in all, none of them a promise or one of the two
  symbols, while the consumer may take any number of turns in between; then
  \<open>close()\<close> is called without options. Run to its end, the consumption
  loop has yielded exactly \<open>vs\<close> in the order of the calls and has returned
  normally: it is \<open>Finished\<close>, not \<open>Thrown\<close>.
\<close>

theorem fifo_order:
  assumes "list_all producing evs" and "pushed evs = map (\<lambda>v. Plain (Val v)) vs"
  shows "iter (consume (call_close no_options (run evs (new_AsyncQueue t)))) = Finished \<and>
         yielded (consume (call_close no_options (run evs (new_AsyncQueue t)))) = map Val vs"
proof -
  have aw: "map await (pushed evs) = map (\<lambda>v. Inr (Val v)) vs"
    by (simp add: assms(2) comp_def)
  note fl = flowing_trace(1) [OF assms(1) aw, of t]
  then have "\<not> reassigned (run evs (new_AsyncQueue t))" by (simp add: flowing_def)
  then have "call_close no_options (run evs (new_AsyncQueue t))
      = close no_options (run evs (new_AsyncQueue t))"
    by (rule call_original)
  with flowing_close [OF fl aw, of no_options]
  show ?thesis by (simp add: no_options_def)
qed

theorem fifo_order_witness:
  "list_all producing [Push [Plain (Val (1::nat)), Plain (Val 2)], Next, Next, Next,
      Push [Plain (Val 3)]] \<and>
   yielded (consume (call_close no_options
      (run [Push [Plain (Val (1::nat)), Plain (Val 2)], Next, Next, Next, Push [Plain (Val 3)]]
         (new_AsyncQueue None)))) = [Val 1, Val 2, Val 3]"
  using fifo_order [of "[Push [Plain (Val (1::nat)), Plain (Val 2)], Next, Next, Next,
      Push [Plain (Val 3)]]" "[1, 2, 3]" None]
  by simp

section \<open>Which sentinel a close inserts\<close>

text \<open>
  C2, as the code has it. The \<open>close\<close> function inserts \<open>ERROR\<close> exactly
  when the call itself carries \<open>withError\<close> and \<open>END\<close> otherwise, at the
  front when \<open>immediately\<close> is true and at the back otherwise; a failure
  recorded earlier plays no part. With a resolver stored, the head of the
  buffer after the insertion goes to the waiter. On a queue whose properties
  have not been reassigned, \<open>queue.close(options)\<close> is that function.
\<close>

theorem close_sentinel:
  "(let m = (case withError options of Some e \<Rightarrow> Plain ERROR | None \<Rightarrow> Plain END);
        q = (if immediately options = Some True then m # queue s
             else queue s @ [m])
    in if resolve s
       then iter (close options s) = Resumed (hd q) \<and>
            queue (close options s) = tl q
       else queue (close options s) = q) \<and>
   (\<not> reassigned s \<longrightarrow> call_close options s = close options s)"
  by (cases "immediately options"; cases "withError options"; cases "queue s")
     (auto simp: call_close_def close_def enqueue_def Let_def
      split: option.splits list.splits)

theorem close_sentinel_witness:
  "\<not> reassigned (call_push [] (new_AsyncQueue None :: unit AsyncQueue)) \<and>
   queue (call_close \<lparr>immediately = None, withError = Some (Error ''x'')\<rparr>
            (call_push [] (new_AsyncQueue None :: unit AsyncQueue)))
     = [Plain ERROR, Plain ERROR] \<and>
   iter (call_close no_options (iterate (new_AsyncQueue None :: unit AsyncQueue)))
     = Resumed (Plain END)"
proof -
  have a: "\<not> reassigned (call_push [] (new_AsyncQueue None :: unit AsyncQueue))"
    and b: "\<not> reassigned (iterate (new_AsyncQueue None :: unit AsyncQueue))"
    by (simp_all add: new_AsyncQueue_def)
  have q: "queue (call_push [] (new_AsyncQueue None :: unit AsyncQueue)) = [Plain ERROR]"
    "\<not> resolve (call_push [] (new_AsyncQueue None :: unit AsyncQueue))"
    "resolve (iterate (new_AsyncQueue None :: unit AsyncQueue))"
    "queue (iterate (new_AsyncQueue None :: unit AsyncQueue)) = []"
    by (simp_all add: call_push_def push_def enqueue_def iterate_def new_AsyncQueue_def)
  from close_sentinel
      [of "\<lparr>immediately = None, withError = Some (Error ''x'')\<rparr>"
        "call_push [] (new_AsyncQueue None :: unit AsyncQueue)"]
    close_sentinel [of no_options "iterate (new_AsyncQueue None :: unit AsyncQueue)"] a b q
  show ?thesis by (simp add: Let_def no_options_def)
qed

text \<open>
  The sentinel does not follow the accumulated failure: after \<open>push()\<close>
  without arguments the failure is recorded, and \<open>close()\<close> then appends
  \<open>END\<close>.
\<close>

theorem close_sentinel_counterexample:
  "error (call_push [] (new_AsyncQueue None :: unit AsyncQueue)) \<noteq> None \<and>
   queue (call_close no_options (call_push [] (new_AsyncQueue None :: unit AsyncQueue)))
     = [Plain ERROR, Plain END]"
  by (simp add: call_push_def call_close_def push_def close_def enqueue_def handleError_def
      new_AsyncQueue_def no_options_def Let_def)

section \<open>Immediate close\<close>

text \<open>
  C3. After any pushes of values on a new queue,
  \<open>close({ immediately: true })\<close> without a failure puts \<open>END\<close> in front
  of everything buffered. The consumption loop then yields nothing and
  returns normally, and the pushed values are still in the buffer behind the
  point where it stopped.
\<close>

theorem immediate_close:
  assumes "[] \<notin> set ds"
  shows "let s = call_close \<lparr>immediately = Some True, withError = None\<rparr>
                   (run (map Push ds) (new_AsyncQueue t))
         in queue s = Plain END # concat ds \<and>
            yielded (consume s) = [] \<and>
            iter (consume s) = Finished \<and>
            queue (consume s) = concat ds"
proof -
  let ?r = "run (map Push ds) (new_AsyncQueue t)"
  let ?s = "call_close \<lparr>immediately = Some True, withError = None\<rparr> ?r"
  have "\<not> reassigned (new_AsyncQueue t)" "\<not> resolve (new_AsyncQueue t)"
    by (simp_all add: new_AsyncQueue_def)
  from pushes_idle [OF this assms]
  have r: "queue ?r = concat ds" "\<not> reassigned ?r" "\<not> resolve ?r"
    "iter ?r = Ready" "yielded ?r = []"
    by (simp_all add: new_AsyncQueue_def)
  then have s: "queue ?s = Plain END # concat ds" "iter ?s = Ready" "yielded ?s = []"
    by (simp_all add: call_close_def close_def enqueue_def Let_def)
  then have "runnable ?s" and "pending ?s = [] @ Plain END # concat ds"
    by (simp_all add: runnable_def pending_def)
  from consume_pending [OF this, of "[]"] s show ?thesis
    by (simp add: Let_def)
qed

theorem immediate_close_witness:
  "[] \<notin> set [[Plain (Val (1::nat))], [Plain (Val 2)]] \<and>
   queue (call_close \<lparr>immediately = Some True, withError = None\<rparr>
     (run (map Push [[Plain (Val (1::nat))], [Plain (Val 2)]]) (new_AsyncQueue None)))
     = [Plain END, Plain (Val 1), Plain (Val 2)] \<and>
   yielded (consume (call_close \<lparr>immediately = Some True, withError = None\<rparr>
     (run (map Push [[Plain (Val (1::nat))], [Plain (Val 2)]]) (new_AsyncQueue None)))) = []"
  using immediate_close [of "[[Plain (Val (1::nat))], [Plain (Val 2)]]" None]
  by (simp add: Let_def)

section \<open>Accumulated failures\<close>

text \<open>
  C4, as the code has it. Recording \<open>e1\<close> and then \<open>es\<close> into an absent
  failure state gives \<open>e1\<close> itself when nothing follows. When more follows
  and \<open>e1\<close> is a plain error, the state is one \<open>AggregateError\<close> whose
  members are exactly \<open>e1\<close> and \<open>es\<close> in report order. When \<open>e1\<close> is itself
  an \<open>AggregateError\<close>, the later failures are appended to its own members.
  In no case is a failure dropped.
\<close>

theorem failures_accumulate:
  "error (record_all (e1 # es) (new_AsyncQueue streamPromise)) =
     Some (if es = [] then e1
           else case e1 of
                  Error m \<Rightarrow> AggregateError (e1 # es)
                | AggregateError ms \<Rightarrow> AggregateError (ms @ es))"
proof (cases es)
  case Nil
  then show ?thesis by (simp add: handleError_def new_AsyncQueue_def)
next
  case (Cons e2 rest)
  show ?thesis
  proof (cases e1)
    case (Error m)
    have "error (handleError e2 (handleError e1 (new_AsyncQueue streamPromise)))
          = Some (AggregateError [e1, e2])"
      by (simp add: handleError_def new_AsyncQueue_def Error)
    from record_all_aggregate [OF this, of rest] show ?thesis
      by (simp add: Cons Error)
  next
    case (AggregateError ms)
    have "error (handleError e2 (handleError e1 (new_AsyncQueue streamPromise)))
          = Some (AggregateError (ms @ [e2]))"
      by (simp add: handleError_def new_AsyncQueue_def AggregateError)
    from record_all_aggregate [OF this, of rest] show ?thesis
      by (simp add: Cons AggregateError)
  qed
qed

text \<open>
  A first failure that is already an \<open>AggregateError\<close> is not wrapped
  together with the second one: the second joins its members.
\<close>

theorem failures_accumulate_counterexample:
  "error (record_all [AggregateError [Error ''a''], Error ''b'']
            (new_AsyncQueue None :: unit AsyncQueue))
   \<noteq> Some (AggregateError [AggregateError [Error ''a''], Error ''b''])"
  by (simp add: handleError_def new_AsyncQueue_def)

section \<open>Push without arguments\<close>

text \<open>
  C5. On a queue whose properties have not been reassigned, \<open>push()\<close>
  without arguments records a failure: the failure state becomes the
  no-arguments error if it was absent, and otherwise the compound of what it
  held and the no-arguments error. It appends \<open>ERROR\<close> at the tail of the
  buffer (from where it goes to the waiter if a resolver is stored). The
  queue is not closed by it: the properties stay as they were, a later
  \<open>push\<close> of values appends them behind the marker, and a later \<open>close\<close>
  runs and reassigns the properties.
\<close>

theorem push_nothing:
  assumes "\<not> reassigned s"
  shows "error (call_push [] s) =
           Some (case error s of
                   None \<Rightarrow> no_arguments_error
                 | Some (Error m) \<Rightarrow> AggregateError [Error m, no_arguments_error]
                 | Some (AggregateError es) \<Rightarrow> AggregateError (es @ [no_arguments_error])) \<and>
         (if resolve s
          then iter (call_push [] s) = Resumed (hd (queue s @ [Plain ERROR])) \<and>
               queue (call_push [] s) = tl (queue s @ [Plain ERROR])
          else queue (call_push [] s) = queue s @ [Plain ERROR]) \<and>
         \<not> reassigned (call_push [] s) \<and>
         (data \<noteq> [] \<longrightarrow>
            call_push data (call_push [] s) \<noteq> call_push [] s \<and>
            queue (call_push data (call_push [] s)) = queue (call_push [] s) @ data) \<and>
         call_close options (call_push [] s) \<noteq> call_push [] s \<and>
         reassigned (call_close options (call_push [] s))"
proof -
  let ?s = "call_push [] s"
  have eq: "?s = handleError no_arguments_error (enqueue False [Plain ERROR] s)"
    using assms by (simp add: call_push_def push_def)
  have open_after: "\<not> reassigned ?s" and idle: "\<not> resolve ?s"
    using assms by (simp_all add: eq)
  have err: "error ?s =
           Some (case error s of
                   None \<Rightarrow> no_arguments_error
                 | Some (Error m) \<Rightarrow> AggregateError [Error m, no_arguments_error]
                 | Some (AggregateError es) \<Rightarrow> AggregateError (es @ [no_arguments_error]))"
    by (simp add: eq error_handleError)
  have buf: "if resolve s
          then iter ?s = Resumed (hd (queue s @ [Plain ERROR])) \<and>
               queue ?s = tl (queue s @ [Plain ERROR])
          else queue ?s = queue s @ [Plain ERROR]"
    by (cases "queue s") (simp_all add: eq enqueue_def)
  have grow: "queue (call_push data ?s) = queue ?s @ data" if "data \<noteq> []"
    using open_after idle that
    by (simp add: call_push_def [of data] push_def [of data] queue_enqueue_idle)
  have live_push: "call_push data ?s \<noteq> ?s" if "data \<noteq> []"
  proof
    assume "call_push data ?s = ?s"
    then have "length (queue (call_push data ?s)) = length (queue ?s)" by simp
    then show False using grow [OF that] that by simp
  qed
  have live_close: "call_close options ?s \<noteq> ?s"
  proof
    assume "call_close options ?s = ?s"
    then have "reassigned (call_close options ?s) = reassigned ?s" by simp
    then show False using open_after by simp
  qed
  from err buf open_after live_push grow live_close show ?thesis by simp
qed

theorem push_nothing_witness:
  "\<not> reassigned (new_AsyncQueue None :: nat AsyncQueue) \<and>
   error (call_push [] (new_AsyncQueue None :: nat AsyncQueue)) = Some no_arguments_error \<and>
   error (call_push [] (call_push [] (new_AsyncQueue None :: nat AsyncQueue)))
     = Some (AggregateError [no_arguments_error, no_arguments_error]) \<and>
   iter (call_push [] (iterate (new_AsyncQueue None :: nat AsyncQueue)))
     = Resumed (Plain ERROR) \<and>
   queue (call_push [] (new_AsyncQueue None :: nat AsyncQueue)) = [Plain ERROR] \<and>
   queue (call_push [Plain (Val 1)] (call_push [] (new_AsyncQueue None :: nat AsyncQueue)))
     = [Plain ERROR, Plain (Val 1)]"
proof -
  let ?n = "new_AsyncQueue None :: nat AsyncQueue"
  have n: "\<not> reassigned ?n" "\<not> reassigned (iterate ?n)" "\<not> reassigned (call_push [] ?n)"
    by (simp_all add: new_AsyncQueue_def)
  have f: "error ?n = None" "queue ?n = []" "\<not> resolve ?n"
    "resolve (iterate ?n)" "queue (iterate ?n) = []"
    by (simp_all add: new_AsyncQueue_def iterate_def)
  note a = push_nothing [OF n(1), of "[Plain (Val 1)]" no_options]
    and b = push_nothing [OF n(2), of "[]" no_options]
    and c = push_nothing [OF n(3), of "[]" no_options]
  from a b c n f show ?thesis
    by (simp add: no_arguments_error_def)
qed

section \<open>Closing is final for calls through the properties\<close>

text \<open>
  C6, as the code has it. Once \<open>close\<close> has run, every later
  \<open>queue.push(...)\<close> and \<open>queue.close(...)\<close>, and every sequence of such
  calls, returns the state it was given: buffer, waiter slot, failure and
  all the rest are what the first close left, and the consumption loop
  meets what it would have met without them.
\<close>

theorem close_idempotent:
  "call_push data (close options s) = close options s \<and>
   call_close options' (close options s) = close options s \<and>
   call_push data (call_close options s) = call_close options s \<and>
   call_close options' (call_close options s) = call_close options s \<and>
   (list_all by_property evs \<longrightarrow>
      run evs (call_close options s) = call_close options s \<and>
      consume (run evs (call_close options s)) = consume (call_close options s))"
  by (simp add: call_reassigned run_by_property)

theorem close_idempotent_witness:
  "list_all by_property
     [Push [Plain (Val (1::nat))], Close \<lparr>immediately = Some True, withError = Some (Error ''late'')\<rparr>,
      Push []] \<and>
   queue (run [Push [Plain (Val (1::nat))],
               Close \<lparr>immediately = Some True, withError = Some (Error ''late'')\<rparr>, Push []]
            (call_close no_options (new_AsyncQueue None))) = [Plain END] \<and>
   error (run [Push [Plain (Val (1::nat))],
               Close \<lparr>immediately = Some True, withError = Some (Error ''late'')\<rparr>, Push []]
            (call_close no_options (new_AsyncQueue None))) = None"
proof -
  let ?evs = "[Push [Plain (Val (1::nat))],
      Close \<lparr>immediately = Some True, withError = Some (Error ''late'')\<rparr>, Push []]"
  have p: "list_all by_property ?evs" by simp
  have q: "queue (call_close no_options (new_AsyncQueue None :: nat AsyncQueue)) = [Plain END]"
    "error (call_close no_options (new_AsyncQueue None :: nat AsyncQueue)) = None"
    by (simp_all add: call_close_def close_def enqueue_def new_AsyncQueue_def no_options_def
        Let_def)
  from close_idempotent [of "[]" no_options "new_AsyncQueue None :: nat AsyncQueue"
      no_options ?evs] p
  have "run ?evs (call_close no_options (new_AsyncQueue None))
      = call_close no_options (new_AsyncQueue None)"
    by blast
  with p q show ?thesis by simp
qed

text \<open>
  A call through a reference to the original function is not covered by the
  reassignment of line 46: a second \<open>close\<close> through such a reference
  appends a second \<open>END\<close>, and a \<open>push\<close> through one still appends its
  argument.
\<close>

theorem close_idempotent_counterexample:
  "queue (close no_options (new_AsyncQueue None :: nat AsyncQueue)) = [Plain END] \<and>
   queue (close no_options (close no_options (new_AsyncQueue None :: nat AsyncQueue)))
     = [Plain END, Plain END] \<and>
   queue (push [Plain (Val 1)] (close no_options (new_AsyncQueue None :: nat AsyncQueue)))
     = [Plain END, Plain (Val 1)]"
  by (simp add: push_def close_def enqueue_def new_AsyncQueue_def no_options_def Let_def)

section \<open>Handing an entry to the waiting consumer\<close>

text \<open>
  C7. In a reachable state with a resolver stored, the generator is
  suspended, the buffer is empty and the properties have not been
  reassigned. A \<open>push\<close> of \<open>d\<close> and \<open>rest\<close> hands \<open>d\<close>, the head of the
  buffer after the insertion, to the waiter, leaves \<open>rest\<close> in the buffer and
  clears the slot; if \<open>d\<close> is, or resolves to, a value, the generator's next
  turn yields exactly that value, once, and \<open>rest\<close> is still buffered. A
  \<open>close\<close> hands its sentinel to the waiter and clears the slot; the next
  turn yields nothing and ends the loop, normally at \<open>END\<close> and by throwing
  the merged failure at \<open>ERROR\<close>.
\<close>

theorem live_handoff:
  assumes "reachable s" and "resolve s"
  shows "iter s = Awaiting \<and> queue s = [] \<and> \<not> reassigned s \<and>
         iter (call_push (d # rest) s) = Resumed d \<and>
         queue (call_push (d # rest) s) = rest \<and>
         \<not> resolve (call_push (d # rest) s) \<and>
         (await d = Inr (Val v) \<longrightarrow>
            yielded (iterate (call_push (d # rest) s)) = yielded s @ [Val v] \<and>
            iter (iterate (call_push (d # rest) s)) = Ready \<and>
            queue (iterate (call_push (d # rest) s)) = rest) \<and>
         iter (call_close options s) =
           Resumed (case withError options of Some e \<Rightarrow> Plain ERROR | None \<Rightarrow> Plain END) \<and>
         queue (call_close options s) = [] \<and>
         \<not> resolve (call_close options s) \<and>
         yielded (iterate (call_close options s)) = yielded s \<and>
         iter (iterate (call_close options s)) =
           (case withError options of
              Some e \<Rightarrow>
                Thrown (Some (case error s of
                                None \<Rightarrow> e
                              | Some (Error m) \<Rightarrow> AggregateError [Error m, e]
                              | Some (AggregateError es) \<Rightarrow> AggregateError (es @ [e])))
            | None \<Rightarrow> Finished)"
proof -
  from assms(1) have snd: "sound s"
    unfolding reachable_def by (rule reachable_sound)
  from snd assms(2) have w: "iter s = Awaiting" "queue s = []"
    by (auto simp: sound_def steady_def)
  then have "pending s = []" by (simp add: pending_def)
  with snd w have op: "\<not> reassigned s" by (auto simp: sound_def)
  let ?p = "call_push (d # rest) s"
  have p: "?p = s\<lparr>queue := rest, resolve := False, iter := Resumed d\<rparr>"
    using op assms(2) w by (simp add: call_push_def push_def enqueue_def)
  have run: "runnable ?p" "pending ?p = d # rest"
    by (simp_all add: p runnable_def pending_def)
  have val: "yielded (iterate ?p) = yielded s @ [Val v] \<and> iter (iterate ?p) = Ready \<and>
      queue (iterate ?p) = rest" if "await d = Inr (Val v)"
    unfolding iterate_value [OF run that] by (simp add: p)
  let ?m = "case withError options of Some e \<Rightarrow> Plain ERROR | None \<Rightarrow> Plain END"
  let ?c = "call_close options s"
  have c: "iter ?c = Resumed ?m" "queue ?c = []" "\<not> resolve ?c" "yielded ?c = yielded s"
    "error ?c = (case withError options of Some e \<Rightarrow> error (handleError e s) | None \<Rightarrow> error s)"
    using op assms(2) w
    by (simp_all add: call_close_def close_def enqueue_def Let_def split: option.splits)
  have fin: "yielded (iterate ?c) = yielded s"
    "iter (iterate ?c) =
       (case withError options of
          Some e \<Rightarrow>
            Thrown (Some (case error s of
                            None \<Rightarrow> e
                          | Some (Error m) \<Rightarrow> AggregateError [Error m, e]
                          | Some (AggregateError es) \<Rightarrow> AggregateError (es @ [e])))
        | None \<Rightarrow> Finished)"
    using c
    by (simp_all add: iterate_def resume_def deliver_def error_handleError
        split: option.splits)
  from w op p val c fin show ?thesis by simp
qed

theorem live_handoff_witness:
  "reachable (iterate (new_AsyncQueue None :: nat AsyncQueue)) \<and>
   resolve (iterate (new_AsyncQueue None :: nat AsyncQueue)) \<and>
   iter (call_push [Plain (Val 7), Plain (Val 8)] (iterate (new_AsyncQueue None :: nat AsyncQueue)))
     = Resumed (Plain (Val 7)) \<and>
   yielded (iterate (call_push [Plain (Val 7), Plain (Val 8)]
      (iterate (new_AsyncQueue None :: nat AsyncQueue)))) = [Val 7] \<and>
   queue (iterate (call_push [Plain (Val 7), Plain (Val 8)]
      (iterate (new_AsyncQueue None :: nat AsyncQueue)))) = [Plain (Val 8)] \<and>
   iter (iterate (call_close no_options (iterate (new_AsyncQueue None :: nat AsyncQueue))))
     = Finished"
proof -
  let ?w = "iterate (new_AsyncQueue None :: nat AsyncQueue)"
  have r: "reachable ?w"
    unfolding reachable_def
    using reachable_by.after [OF reachable_by.fresh, of "\<lambda>e. True" Next None] by simp
  have w: "resolve ?w" and y: "yielded ?w = []"
    by (simp_all add: iterate_def new_AsyncQueue_def)
  have a: "await (Plain (Val (7::nat))) = Inr (Val 7)" by simp
  from live_handoff [OF r w, of "Plain (Val 7)" "[Plain (Val 8)]" 7 no_options] r w y a
  show ?thesis by (simp add: no_options_def)
qed

section \<open>Promises in the queue\<close>

text \<open>
  C8. A pushed promise that resolves to the value \<open>v\<close>, followed by
  \<open>close()\<close>, makes the loop yield \<open>v\<close> itself and return, both when the
  promise is taken from the buffer and when it is handed to a consumer that
  was already waiting.
\<close>

theorem promise_unwrapped:
  "yielded (consume (call_close no_options
      (call_push [Future (Resolves (Val v))] (new_AsyncQueue t)))) = [Val v] \<and>
   iter (consume (call_close no_options
      (call_push [Future (Resolves (Val v))] (new_AsyncQueue t)))) = Finished \<and>
   iter (call_push [Future (Resolves (Val v))] (iterate (new_AsyncQueue t)))
     = Resumed (Future (Resolves (Val v))) \<and>
   yielded (consume (call_close no_options
      (call_push [Future (Resolves (Val v))] (iterate (new_AsyncQueue t))))) = [Val v] \<and>
   iter (consume (call_close no_options
      (call_push [Future (Resolves (Val v))] (iterate (new_AsyncQueue t))))) = Finished"
proof -
  let ?p = "Push [Future (Resolves (Val v))] :: 'a event"
  have a: "map await (pushed [?p]) = map (\<lambda>v. Inr (Val v)) [v]"
    and b: "map await (pushed [Next, ?p]) = map (\<lambda>v. Inr (Val v)) [v]" by simp_all
  have l: "list_all producing [?p]" "list_all producing [Next, ?p]" by simp_all
  note f1 = flowing_trace(1) [OF l(1) a, of t] and f2 = flowing_trace(1) [OF l(2) b, of t]
  have o1: "call_close no_options (run [?p] (new_AsyncQueue t))
      = close no_options (run [?p] (new_AsyncQueue t))"
    and o2: "call_close no_options (run [Next, ?p] (new_AsyncQueue t))
      = close no_options (run [Next, ?p] (new_AsyncQueue t))"
    using f1 f2 by (simp_all add: call_original flowing_def)
  note buffered = flowing_close [OF f1 a, of no_options]
    and handed = flowing_close [OF f2 b, of no_options]
  have "iter (call_push [Future (Resolves (Val v))] (iterate (new_AsyncQueue t)))
     = Resumed (Future (Resolves (Val v)))"
    by (simp add: new_AsyncQueue_def iterate_def call_push_def push_def enqueue_def)
  with buffered handed o1 o2 show ?thesis by (simp add: no_options_def)
qed

section \<open>The promise given to the constructor\<close>

text \<open>
  C9, as the code has it. Let the queue be constructed with a promise, and
  let only values be pushed and consumer turns taken before it settles. If it
  rejects with a reason \<open>r\<close>, the handlers amount to
  \<open>close({ withError: r })\<close>, the second \<open>close()\<close> being without effect.
  For a truthy \<open>r\<close> the loop yields the pushed values and then throws
  \<open>r\<close>; for a falsy \<open>r\<close> the call takes the branch without failure, and the
  loop yields the pushed values and returns. If the promise fulfils, the
  handlers amount to \<open>close()\<close>, and the loop yields the pushed values and
  returns. On a queue whose properties have already been reassigned,
  settling changes nothing but the fact that the handlers have run, so a
  rejection reason is dropped there.
\<close>

theorem producer_task:
  assumes "list_all producing evs"
    and "map await (pushed evs) = map (\<lambda>v. Inr (Val v)) vs"
  shows "(let s = run evs (new_AsyncQueue (Some (RejectsWith r))) in
            settle s = close \<lparr>immediately = None, withError = r\<rparr> (s\<lparr>task := None\<rparr>) \<and>
            iter (consume (settle s)) =
              (case r of Some e \<Rightarrow> Thrown (Some e) | None \<Rightarrow> Finished) \<and>
            yielded (consume (settle s)) = map Val vs) \<and>
         (let s = run evs (new_AsyncQueue (Some Fulfils)) in
            settle s = close no_options (s\<lparr>task := None\<rparr>) \<and>
            iter (consume (settle s)) = Finished \<and>
            yielded (consume (settle s)) = map Val vs) \<and>
         (reassigned s' \<longrightarrow> settle s' = s'\<lparr>task := None\<rparr>)"
proof -
  let ?r = "run evs (new_AsyncQueue (Some (RejectsWith r)))"
  let ?f = "run evs (new_AsyncQueue (Some Fulfils))"
  note r = flowing_trace [OF assms, of "Some (RejectsWith r)"]
  note f = flowing_trace [OF assms, of "Some Fulfils"]
  have fr: "flowing (?r\<lparr>task := None\<rparr>) (pushed evs)" using r(1) by simp
  have ff: "flowing (?f\<lparr>task := None\<rparr>) (pushed evs)" using f(1) by simp
  have sr: "settle ?r = close \<lparr>immediately = None, withError = r\<rparr> (?r\<lparr>task := None\<rparr>)"
    using fr by (simp add: settle_rejected [OF r(2)] call_original flowing_def)
  have sf: "settle ?f = close no_options (?f\<lparr>task := None\<rparr>)"
    using ff by (simp add: settle_fulfilled [OF f(2)] call_original flowing_def)
  from flowing_close [OF fr assms(2), of "\<lparr>immediately = None, withError = r\<rparr>"]
  have cr: "iter (consume (settle ?r)) =
        (case r of Some e \<Rightarrow> Thrown (Some e) | None \<Rightarrow> Finished) \<and>
      yielded (consume (settle ?r)) = map Val vs"
    by (simp add: sr)
  from flowing_close [OF ff assms(2), of no_options]
  have cf: "iter (consume (settle ?f)) = Finished \<and> yielded (consume (settle ?f)) = map Val vs"
    by (simp add: sf no_options_def)
  from sr sf cr cf settle_reassigned [of s'] show ?thesis by (simp add: Let_def)
qed

theorem producer_task_witness:
  "list_all producing [Push [Plain (Val (1::nat))], Next, Push [Future (Resolves (Val 2))]] \<and>
   iter (consume (settle (run [Push [Plain (Val (1::nat))], Next, Push [Future (Resolves (Val 2))]]
      (new_AsyncQueue (Some (RejectsWith (Some (Error ''boom''))))))))
     = Thrown (Some (Error ''boom'')) \<and>
   yielded (consume (settle (run [Push [Plain (Val (1::nat))], Next, Push [Future (Resolves (Val 2))]]
      (new_AsyncQueue (Some (RejectsWith (Some (Error ''boom'')))))))) = [Val 1, Val 2] \<and>
   yielded (consume (settle (run [Push [Plain (Val (1::nat))], Next, Push [Future (Resolves (Val 2))]]
      (new_AsyncQueue (Some Fulfils))))) = [Val 1, Val 2] \<and>
   reassigned (call_close no_options (new_AsyncQueue (Some Fulfils) :: nat AsyncQueue)) \<and>
   settle (call_close no_options (new_AsyncQueue (Some Fulfils) :: nat AsyncQueue))
     = (call_close no_options (new_AsyncQueue (Some Fulfils)))\<lparr>task := None\<rparr>"
proof -
  let ?evs = "[Push [Plain (Val (1::nat))], Next, Push [Future (Resolves (Val 2))]]"
  have c: "reassigned (call_close no_options (new_AsyncQueue (Some Fulfils) :: nat AsyncQueue))"
    by simp
  have p: "list_all producing ?evs"
    by simp
  have m: "map await (pushed ?evs) = map (\<lambda>v. Inr (Val v)) [1, 2]"
    by simp
  note t = producer_task [OF p m, of "Some (Error ''boom'')"
      "call_close no_options (new_AsyncQueue (Some Fulfils))", unfolded Let_def option.case list.map]
  from t c p show ?thesis by blast
qed

text \<open>
  A rejection with \<open>undefined\<close> ends the loop normally with no failure
  recorded, and so does a rejection with an error on a queue that was closed
  before.
\<close>

theorem producer_task_counterexample:
  "iter (consume (settle (new_AsyncQueue (Some (RejectsWith None)) :: nat AsyncQueue)))
     = Finished \<and>
   error (consume (settle (new_AsyncQueue (Some (RejectsWith None)) :: nat AsyncQueue)))
     = None \<and>
   iter (consume (settle (call_close no_options
      (new_AsyncQueue (Some (RejectsWith (Some (Error ''E'')))) :: nat AsyncQueue))))
     = Finished \<and>
   error (consume (settle (call_close no_options
      (new_AsyncQueue (Some (RejectsWith (Some (Error ''E'')))) :: nat AsyncQueue))))
     = None"
  by (simp add: consume_go consume_stop settle_def call_close_def close_def enqueue_def
      new_AsyncQueue_def no_options_def Let_def runnable_def iterate_def deliver_def)

section \<open>An error marker comes with a failure\<close>

text \<open>
  C10, as the code has it. In every state reached from a new queue by
  pushes, closes (through the properties or through references to the
  original functions), consumer turns and the settling of the constructor's
  promise, provided no argument of a push is the symbol \<open>ERROR\<close> or a
  promise resolving to it: an \<open>ERROR\<close> in the buffer or in the consumer's
  hands comes with a recorded failure, and the generator, when its next turn
  meets that marker, throws a failure that is not \<open>undefined\<close>.
\<close>

theorem error_marker_has_failure:
  assumes "reachable_by clean s"
  shows "(Plain ERROR \<in> set (queue s) \<or> (\<exists>v. iter s = Resumed v \<and> await v = Inr ERROR)
            \<longrightarrow> error s \<noteq> None) \<and>
         (iter s = Ready \<and> (\<exists>rest. queue s = Plain ERROR # rest)
            \<longrightarrow> (\<exists>e. iter (iterate s) = Thrown (Some e))) \<and>
         ((\<exists>v. iter s = Resumed v \<and> await v = Inr ERROR)
            \<longrightarrow> (\<exists>e. iter (iterate s) = Thrown (Some e)))"
proof -
  note b = reachable_backed [OF assms]
  have 1: "error s \<noteq> None"
    if "Plain ERROR \<in> set (queue s) \<or> (\<exists>v. iter s = Resumed v \<and> await v = Inr ERROR)"
  proof -
    from that have "\<exists>v\<in>set (pending s). await v = Inr ERROR"
      by (auto simp: pending_def intro: bexI [of _ "Plain ERROR"])
    with b show ?thesis by (simp add: backed_def)
  qed
  have 2: "\<exists>e. iter (iterate s) = Thrown (Some e)"
    if "iter s = Ready \<and> (\<exists>rest. queue s = Plain ERROR # rest)"
  proof -
    from that 1 have "error s \<noteq> None" by auto
    with that show ?thesis by (auto simp: iterate_def deliver_def)
  qed
  have 3: "\<exists>e. iter (iterate s) = Thrown (Some e)"
    if "\<exists>v. iter s = Resumed v \<and> await v = Inr ERROR"
  proof -
    from that 1 have "error s \<noteq> None" by auto
    with that show ?thesis by (auto simp: iterate_def resume_def deliver_def)
  qed
  from 1 2 3 show ?thesis by blast
qed

theorem error_marker_has_failure_witness:
  "reachable_by clean (call_push [] (new_AsyncQueue None :: nat AsyncQueue)) \<and>
   Plain ERROR \<in> set (queue (call_push [] (new_AsyncQueue None :: nat AsyncQueue))) \<and>
   error (call_push [] (new_AsyncQueue None :: nat AsyncQueue)) \<noteq> None \<and>
   (\<exists>e. iter (iterate (call_push [] (new_AsyncQueue None :: nat AsyncQueue)))
     = Thrown (Some e)) \<and>
   reachable_by clean (call_push [] (iterate (new_AsyncQueue None :: nat AsyncQueue))) \<and>
   iter (call_push [] (iterate (new_AsyncQueue None :: nat AsyncQueue)))
     = Resumed (Plain ERROR) \<and>
   (\<exists>e. iter (iterate (call_push [] (iterate (new_AsyncQueue None :: nat AsyncQueue))))
     = Thrown (Some e))"
proof -
  let ?n = "new_AsyncQueue None :: nat AsyncQueue"
  have r: "reachable_by clean (call_push [] ?n)"
    using reachable_by.after [OF reachable_by.fresh, of clean "Push []" None] by simp
  have "reachable_by clean (iterate ?n)"
    using reachable_by.after [OF reachable_by.fresh, of clean Next None] by simp
  from reachable_by.after [OF this, of "Push []"]
  have r': "reachable_by clean (call_push [] (iterate ?n))" by simp
  have q: "queue (call_push [] ?n) = [Plain ERROR]" "iter (call_push [] ?n) = Ready"
    "iter (call_push [] (iterate ?n)) = Resumed (Plain ERROR)"
    by (simp_all add: call_push_def push_def enqueue_def iterate_def new_AsyncQueue_def)
  from error_marker_has_failure [OF r] error_marker_has_failure [OF r'] r r' q
  show ?thesis by simp
qed

text \<open>
  The symbol \<open>ERROR\<close> is exported, and \<open>push\<close> stores it like any other
  argument: after \<open>push(ERROR)\<close> on a new queue the marker is in the buffer
  with no failure recorded, and the generator throws \<open>undefined\<close>. The same
  happens when a promise resolving to \<open>ERROR\<close> is handed to a waiting
  consumer.
\<close>

theorem error_marker_has_failure_counterexample:
  "queue (call_push [Plain ERROR] (new_AsyncQueue None :: nat AsyncQueue)) = [Plain ERROR] \<and>
   error (call_push [Plain ERROR] (new_AsyncQueue None :: nat AsyncQueue)) = None \<and>
   iter (iterate (call_push [Plain ERROR] (new_AsyncQueue None :: nat AsyncQueue)))
     = Thrown None \<and>
   iter (iterate (call_push [Future (Resolves ERROR)]
      (iterate (new_AsyncQueue None :: nat AsyncQueue)))) = Thrown None"
  by (simp add: call_push_def push_def enqueue_def iterate_def deliver_def resume_def
      new_AsyncQueue_def)

end
